theory Spec2Isabelle
  imports Complex_Main "HOL-Library.Sublist"
begin

section \<open>The page generator \<^verbatim>\<open>sample/build-html.py\<close>\<close>

text \<open>
  The script is nine lines of Python 2:
  \<^verbatim>\<open>
  import os, commands
  with open("Sample.html.in") as html_file:
    sample = html_file.read()
    with open("Editor.jsx.bin") as source_file:
      source = source_file.read()
      cloc = commands.getoutput('cloc --quiet --csv --force-lang="JavaScript",jsx ../src/Editor.jsx').split('\n')[2].split(',')[4]
      minified_size = os.path.getsize('Editor.js')
      gzip_size = os.path.getsize('Editor.js.gz')
      print sample.replace('SOURCE', source).replace('MINIFIED_SIZE', "{:.0f}".format(minified_size/1024.0)).replace('GZIP_SIZE', "{:.0f}".format(gzip_size/1024.0)).replace ('CLOC', "{:.1f}".format(float(cloc)/1024.0))
  \<close>
  Everything it does is done by built-ins of Python 2.7: \<^verbatim>\<open>str.replace\<close>,
  \<^verbatim>\<open>str.split\<close>, list indexing, \<^verbatim>\<open>float\<close>, true division of
  floats, \<^verbatim>\<open>str.format\<close> and the \<^verbatim>\<open>print\<close> statement. Each is modelled
  below as an executable function; an uncaught exception is a value \<open>Inl e\<close>.
  A Python 2 \<^verbatim>\<open>str\<close> is a byte string, here a \<^typ>\<open>string\<close>.
\<close>

subsection \<open>Exceptions\<close>

text \<open>The exceptions the script can raise: \<^verbatim>\<open>open\<close> raises IOError,
  \<^verbatim>\<open>os.path.getsize\<close> raises OSError, an index out of range IndexError and
  \<^verbatim>\<open>float\<close> of a malformed literal ValueError. None is caught.\<close>

datatype error = IOError | OSError | IndexError | ValueError

subsection \<open>Strings\<close>

text \<open>\<^verbatim>\<open>s.replace(old, new)\<close>: every non-overlapping occurrence of \<open>old\<close>, found
  scanning from the left, is replaced; the scan resumes after the occurrence and never looks
  at the text it has inserted. An empty \<open>old\<close> matches before every character and at the
  end.\<close>

function replace :: "string \<Rightarrow> string \<Rightarrow> string \<Rightarrow> string" where
  "replace [] old new = (if old = [] then new else [])"
| "replace (c # cs) old new =
     (if old = [] then new @ c # replace cs old new
      else if prefix old (c # cs) then new @ replace (drop (length old) (c # cs)) old new
      else c # replace cs old new)"
  by pat_completeness auto
termination
  by (relation "measure (\<lambda>(s, old, new). length s)") auto

text \<open>\<^verbatim>\<open>s.split(sep)\<close> for a one-character separator: one piece more than there are
  separators, empty pieces kept.\<close>

fun split :: "string \<Rightarrow> char \<Rightarrow> string list" where
  "split [] sep = [[]]"
| "split (c # cs) sep =
     (if c = sep then [] # split cs sep
      else (case split cs sep of [] \<Rightarrow> [[c]] | w # ws \<Rightarrow> (c # w) # ws))"

text \<open>\<^verbatim>\<open>s.count(old)\<close>: the number of non-overlapping occurrences the same scan
  finds, which is the number of replacements \<^verbatim>\<open>s.replace(old, new)\<close> makes.\<close>

function count :: "string \<Rightarrow> string \<Rightarrow> nat" where
  "count [] old = (if old = [] then 1 else 0)"
| "count (c # cs) old =
     (if old = [] then Suc (count cs old)
      else if prefix old (c # cs) then Suc (count (drop (length old) (c # cs)) old)
      else count cs old)"
  by pat_completeness auto
termination
  by (relation "measure (\<lambda>(s, old). length s)") auto

text \<open>\<^verbatim>\<open>xs[i]\<close> for a constant index \<open>i \<ge> 0\<close>.\<close>

definition index :: "'a list \<Rightarrow> nat \<Rightarrow> error + 'a" where
  "index xs i = (if i < length xs then Inr (xs ! i) else Inl IndexError)"

definition newline :: char where
  "newline = CHR 0x0A"

definition comma :: char where
  "comma = CHR '',''"

subsection \<open>Floats\<close>

text \<open>A Python float is an IEEE 754 binary64 value: a sign bit with a magnitude (a
  non-negative rational, always one of the representable ones), an infinity, or a NaN.\<close>

datatype pyfloat = Finite bool rat | Infinite bool | NaN

definition pow2 :: "int \<Rightarrow> rat" where
  "pow2 e = (if 0 \<le> e then 2 ^ nat e else 1 / 2 ^ nat (- e))"

definition pow10 :: "int \<Rightarrow> rat" where
  "pow10 e = (if 0 \<le> e then 10 ^ nat e else 1 / 10 ^ nat (- e))"

fun bit_length :: "nat \<Rightarrow> nat" where
  "bit_length n = (if n = 0 then 0 else Suc (bit_length (n div 2)))"

declare bit_length.simps [simp del]

text \<open>\<open>\<lfloor>log\<^sub>2 q\<rfloor>\<close> for \<open>q > 0\<close>, from the bit lengths of numerator and denominator.\<close>

definition ilog2 :: "rat \<Rightarrow> int" where
  "ilog2 q =
     (let (a, b) = quotient_of q;
          e = int (bit_length (nat a)) - int (bit_length (nat b))
      in if pow2 e \<le> q then e else e - 1)"

text \<open>Rounding to the nearest integer, ties to the even one.\<close>

definition round_half_even :: "rat \<Rightarrow> int" where
  "round_half_even q =
     (let f = \<lfloor>q\<rfloor>; d = q - of_int f
      in if d < 1 / 2 then f else if 1 / 2 < d then f + 1 else if even f then f else f + 1)"

text \<open>The binary64 value nearest to a magnitude \<open>q \<ge> 0\<close>: 53 significant bits, the unit
  in the last place never below \<open>2\<^sup>-\<^sup>1\<^sup>0\<^sup>7\<^sup>4\<close>, ties to even, and infinity from
  \<open>2\<^sup>1\<^sup>0\<^sup>2\<^sup>4\<close> on.\<close>

definition to_double :: "bool \<Rightarrow> rat \<Rightarrow> pyfloat" where
  "to_double neg q =
     (if q = 0 then Finite neg 0
      else
        let e = max (ilog2 q - 52) (- 1074);
            r = of_int (round_half_even (q / pow2 e)) * pow2 e
        in if pow2 1024 \<le> r then Infinite neg else Finite neg r)"

text \<open>An \<^verbatim>\<open>int\<close> operand of a float division is converted to the nearest float.\<close>

definition float_of_int :: "nat \<Rightarrow> pyfloat" where
  "float_of_int n = to_double False (of_nat n)"

text \<open>\<^verbatim>\<open>x / 1024.0\<close>.\<close>

fun div_1024 :: "pyfloat \<Rightarrow> pyfloat" where
  "div_1024 (Finite neg q) = to_double neg (q / 1024)"
| "div_1024 (Infinite neg) = Infinite neg"
| "div_1024 NaN = NaN"

subsection \<open>\<^verbatim>\<open>float(s)\<close>\<close>

definition is_space :: "char \<Rightarrow> bool" where
  "is_space c = (c \<in> set [CHR '' '', CHR 0x09, CHR 0x0A, CHR 0x0B, CHR 0x0C, CHR 0x0D])"

definition is_digit :: "char \<Rightarrow> bool" where
  "is_digit c = (48 \<le> (of_char c :: nat) \<and> (of_char c :: nat) \<le> 57)"

definition digit_val :: "char \<Rightarrow> nat" where
  "digit_val c = of_char c - 48"

definition digits_val :: "string \<Rightarrow> nat" where
  "digits_val ds = foldl (\<lambda>a c. 10 * a + digit_val c) 0 ds"

definition to_lower :: "char \<Rightarrow> char" where
  "to_lower c = (if 65 \<le> (of_char c :: nat) \<and> (of_char c :: nat) \<le> 90
                 then char_of ((of_char c :: nat) + 32) else c)"

definition strip :: "string \<Rightarrow> string" where
  "strip s = rev (dropWhile is_space (rev (dropWhile is_space s)))"

definition take_sign :: "string \<Rightarrow> bool \<times> string" where
  "take_sign s =
     (case s of
        [] \<Rightarrow> (False, [])
      | c # cs \<Rightarrow> if c = CHR ''-'' then (True, cs) else if c = CHR ''+'' then (False, cs)
                  else (False, s))"

text \<open>The exponent part of a decimal literal: nothing, or \<^verbatim>\<open>e\<close>/\<^verbatim>\<open>E\<close>, an optional
  sign and at least one digit.\<close>

definition exponent :: "string \<Rightarrow> int option" where
  "exponent s =
     (case s of
        [] \<Rightarrow> Some 0
      | c # cs \<Rightarrow>
          if c = CHR ''e'' \<or> c = CHR ''E'' then
            (let (neg, ds) = take_sign cs
             in if ds \<noteq> [] \<and> list_all is_digit ds
                then Some (if neg then - int (digits_val ds) else int (digits_val ds))
                else None)
          else None)"

text \<open>\<^verbatim>\<open>float(s)\<close> of a \<^verbatim>\<open>str\<close>: surrounding whitespace is dropped; then an optional
  sign and either \<^verbatim>\<open>inf\<close>, \<^verbatim>\<open>infinity\<close> or \<^verbatim>\<open>nan\<close> in any case, or a decimal
  literal (digits with an optional point, at least one digit, and an optional exponent). The
  value of the literal is rounded to the nearest float. Anything else raises ValueError.\<close>

definition float :: "string \<Rightarrow> error + pyfloat" where
  "float s =
     (let (neg, r) = take_sign (strip s);
          l = map to_lower r
      in if l = ''inf'' \<or> l = ''infinity'' then Inr (Infinite neg)
         else if l = ''nan'' then Inr NaN
         else
           let ip = takeWhile is_digit r;
               r1 = dropWhile is_digit r;
               hp = (r1 \<noteq> [] \<and> hd r1 = CHR ''.'');
               fp = (if hp then takeWhile is_digit (tl r1) else []);
               r2 = (if hp then dropWhile is_digit (tl r1) else r1)
           in if ip = [] \<and> fp = [] then Inl ValueError
              else (case exponent r2 of
                      None \<Rightarrow> Inl ValueError
                    | Some x \<Rightarrow>
                        Inr (to_double neg
                              (of_nat (digits_val (ip @ fp)) * pow10 (x - int (length fp))))))"

subsection \<open>\<^verbatim>\<open>"{:.0f}".format(x)\<close> and \<^verbatim>\<open>"{:.1f}".format(x)\<close>\<close>

definition digit_char :: "nat \<Rightarrow> char" where
  "digit_char d = ''0123456789'' ! d"

fun show_nat :: "nat \<Rightarrow> string" where
  "show_nat n = (if n < 10 then [digit_char n] else show_nat (n div 10) @ [digit_char (n mod 10)])"

declare show_nat.simps [simp del]

definition sign_str :: "bool \<Rightarrow> string" where
  "sign_str neg = (if neg then ''-'' else [])"

text \<open>Fixed notation with \<open>p\<close> digits after the point: the exact value is rounded to a
  multiple of \<open>10\<^sup>-\<^sup>p\<close>, ties to even; without digits after the point there is no
  point.\<close>

definition fixed :: "nat \<Rightarrow> rat \<Rightarrow> string" where
  "fixed p q =
     (let n = nat (round_half_even (q * 10 ^ p));
          fd = show_nat (n mod 10 ^ p)
      in show_nat (n div 10 ^ p) @
         (if p = 0 then [] else ''.'' @ replicate (p - length fd) (CHR ''0'') @ fd))"

text \<open>Python 2.7 formats a float of magnitude \<open>10\<^sup>5\<^sup>0\<close> or more given to a
  \<^verbatim>\<open>f\<close> format in \<^verbatim>\<open>g\<close> style instead; with a precision of 0 or 1 that is one
  significant digit and a decimal exponent.\<close>

definition general1 :: "rat \<Rightarrow> string" where
  "general1 q =
     (let x = length (show_nat (nat \<lfloor>q\<rfloor>)) - 1;
          d = nat (round_half_even (q / 10 ^ x))
      in if d = 10 then ''1e+'' @ show_nat (x + 1) else show_nat d @ ''e+'' @ show_nat x)"

fun format_f :: "nat \<Rightarrow> pyfloat \<Rightarrow> string" where
  "format_f p (Finite neg q) = sign_str neg @ (if 10 ^ 50 \<le> q then general1 q else fixed p q)"
| "format_f p (Infinite neg) = sign_str neg @ ''inf''"
| "format_f p NaN = ''nan''"

subsection \<open>The script\<close>

text \<open>What the script reads from its surroundings: \<^verbatim>\<open>open(path).read()\<close> (None when
  it raises IOError), \<^verbatim>\<open>os.path.getsize(path)\<close> (None when it raises OSError) and
  \<^verbatim>\<open>commands.getoutput(cmd)\<close>, which returns whatever the shell printed and never
  raises.\<close>

record world =
  read_file :: "string \<Rightarrow> string option"
  getsize :: "string \<Rightarrow> nat option"
  getoutput :: "string \<Rightarrow> string"

definition cloc_command :: string where
  "cloc_command =
     ''cloc --quiet --csv --force-lang='' @ [CHR 0x22] @ ''JavaScript'' @ [CHR 0x22] @
     '',jsx ../src/Editor.jsx''"

text \<open>\<^verbatim>\<open>"{:.0f}".format(size/1024.0)\<close> for a size in bytes, and
  \<^verbatim>\<open>"{:.1f}".format(float(cloc)/1024.0)\<close> for the field of the tool's output.\<close>

definition size_text :: "nat \<Rightarrow> string" where
  "size_text n = format_f 0 (div_1024 (float_of_int n))"

definition cloc_text :: "string \<Rightarrow> error + string" where
  "cloc_text cloc = (case float cloc of Inl e \<Rightarrow> Inl e | Inr x \<Rightarrow> Inr (format_f 1 (div_1024 x)))"

text \<open>The argument of \<^verbatim>\<open>print\<close>, for the values already read: four replacements, each
  over the result of the one before. The argument of the last one is evaluated last, and
  there \<^verbatim>\<open>float(cloc)\<close> can raise.\<close>

definition page :: "string \<Rightarrow> string \<Rightarrow> nat \<Rightarrow> nat \<Rightarrow> string \<Rightarrow> error + string" where
  "page sample source minified_size gzip_size cloc =
     (let s1 = replace sample ''SOURCE'' source;
          s2 = replace s1 ''MINIFIED_SIZE'' (size_text minified_size);
          s3 = replace s2 ''GZIP_SIZE'' (size_text gzip_size)
      in case cloc_text cloc of
           Inl e \<Rightarrow> Inl e
         | Inr v \<Rightarrow> Inr (replace s3 ''CLOC'' v))"

text \<open>A run of the script: \<open>Inl e\<close> is the uncaught exception \<open>e\<close> (a traceback on the
  standard error, nothing on the standard output, exit status 1); \<open>Inr out\<close> is exit
  status 0 with \<open>out\<close> on the standard output. \<^verbatim>\<open>print\<close> writes its argument and a
  newline.\<close>

definition run :: "world \<Rightarrow> error + string" where
  "run w =
     (case read_file w ''Sample.html.in'' of
        None \<Rightarrow> Inl IOError
      | Some sample \<Rightarrow>
     (case read_file w ''Editor.jsx.bin'' of
        None \<Rightarrow> Inl IOError
      | Some source \<Rightarrow>
     (case index (split (getoutput w cloc_command) newline) 2 of
        Inl e \<Rightarrow> Inl e
      | Inr line \<Rightarrow>
     (case index (split line comma) 4 of
        Inl e \<Rightarrow> Inl e
      | Inr cloc \<Rightarrow>
     (case getsize w ''Editor.js'' of
        None \<Rightarrow> Inl OSError
      | Some minified_size \<Rightarrow>
     (case getsize w ''Editor.js.gz'' of
        None \<Rightarrow> Inl OSError
      | Some gzip_size \<Rightarrow>
     (case page sample source minified_size gzip_size cloc of
        Inl e \<Rightarrow> Inl e
      | Inr text \<Rightarrow> Inr (text @ [newline]))))))))"

definition stdout :: "error + string \<Rightarrow> string" where
  "stdout r = (case r of Inl e \<Rightarrow> [] | Inr out \<Rightarrow> out)"

definition exit_status :: "error + string \<Rightarrow> nat" where
  "exit_status r = (case r of Inl e \<Rightarrow> 1 | Inr out \<Rightarrow> 0)"

subsection \<open>Scenarios\<close>

text \<open>Surroundings in which the two text files hold \<open>sample\<close> and \<open>source\<close>, the two
  bundles have the given sizes, the line-counting command prints \<open>out\<close>, and nothing else
  exists.\<close>

definition surroundings :: "string \<Rightarrow> string \<Rightarrow> nat \<Rightarrow> nat \<Rightarrow> string \<Rightarrow> world" where
  "surroundings sample source minified_size gzip_size out =
     \<lparr> read_file = (\<lambda>p. if p = ''Sample.html.in'' then Some sample
                         else if p = ''Editor.jsx.bin'' then Some source else None),
       getsize = (\<lambda>p. if p = ''Editor.js'' then Some minified_size
                       else if p = ''Editor.js.gz'' then Some gzip_size else None),
       getoutput = (\<lambda>c. if c = cloc_command then out else []) \<rparr>"

text \<open>What \<^verbatim>\<open>cloc --quiet --csv\<close> prints for one file with \<open>code\<close> lines of code, as
  \<^verbatim>\<open>commands.getoutput\<close> returns it: an empty line, the header, the row.\<close>

definition cloc_csv :: "string \<Rightarrow> string" where
  "cloc_csv code =
     [newline] @ ''files,language,blank,comment,code'' @ [newline] @ ''1,JavaScript,12,34,'' @ code"

definition e2e_template :: string where
  "e2e_template = ''<p>SOURCE lines, MINIFIED_SIZE KB min, GZIP_SIZE KB gz, CLOCk loc</p>''"

definition e2e_world :: world where
  "e2e_world = surroundings e2e_template ''const x = 1;'' 2048 1024 (cloc_csv ''2048'')"

text \<open>The shell finds no \<^verbatim>\<open>cloc\<close>: one line of complaint.\<close>

definition no_cloc_world :: world where
  "no_cloc_world =
     surroundings e2e_template ''const x = 1;'' 2048 1024 ''sh: 1: cloc: not found''"

text \<open>The minified bundle has not been built.\<close>

definition no_bundle_world :: world where
  "no_bundle_world = e2e_world \<lparr> getsize := (\<lambda>p. if p = ''Editor.js.gz'' then Some 1024 else None) \<rparr>"

text \<open>The same inputs among other files and other commands.\<close>

definition busy_world :: world where
  "busy_world =
     \<lparr> read_file = (\<lambda>p. if p = ''README.md'' then Some ''# Editor'' else read_file e2e_world p),
       getsize = (\<lambda>p. if p = ''README.md'' then Some 8 else getsize e2e_world p),
       getoutput = (\<lambda>c. if c = ''date'' then ''Tue Nov  3'' else getoutput e2e_world c) \<rparr>"

text \<open>The source listing mentions a placeholder itself.\<close>

definition source_token_world :: world where
  "source_token_world = surroundings e2e_template ''var SOURCE = 1;'' 2048 1024 (cloc_csv ''2048'')"

text \<open>Each placeholder once in the template, and one of them in the source listing.\<close>

definition length_world :: world where
  "length_world =
     surroundings ''SOURCE MINIFIED_SIZE GZIP_SIZE CLOC'' ''CLOC'' 1024 1024 (cloc_csv ''1024'')"

text \<open>A template without the last placeholder, and a source listing with it.\<close>

definition absent_token_world :: world where
  "absent_token_world = surroundings ''<pre>SOURCE</pre>'' ''CLOC'' 2048 1024 (cloc_csv ''2048'')"

text \<open>A template without any placeholder.\<close>

definition no_token_world :: world where
  "no_token_world =
     surroundings ''<p>no placeholders</p>'' ''const x = 1;'' 2048 1024 (cloc_csv ''2048'')"

section \<open>Notions for the properties\<close>

text \<open>A value \<open>q\<close> written with one digit after the point, rounded to the nearest tenth
  (ties to the even tenth).\<close>

definition one_decimal :: "rat \<Rightarrow> string" where
  "one_decimal q =
     (let t = nat (round_half_even (q * 10)) in show_nat (t div 10) @ ''.'' @ show_nat (t mod 10))"

text \<open>No occurrence of \<open>old\<close> can begin inside an occurrence of \<open>t\<close>, whatever follows:
  no non-empty suffix of \<open>t\<close> is a prefix of \<open>old\<close> or has \<open>old\<close> as a prefix.\<close>

fun overlap_free :: "string \<Rightarrow> string \<Rightarrow> bool" where
  "overlap_free [] old = True"
| "overlap_free (a # t) old = (\<not> prefix old (a # t) \<and> \<not> prefix (a # t) old \<and> overlap_free t old)"

text \<open>The characters of the four placeholders are capital letters and the underscore, all
  with codes from 65 to 95.\<close>

definition token_char :: "char \<Rightarrow> bool" where
  "token_char c = (65 \<le> (of_char c :: nat) \<and> (of_char c :: nat) \<le> 95)"

text \<open>A text without any character of a placeholder.\<close>

definition plain :: "string \<Rightarrow> bool" where
  "plain s = list_all (\<lambda>c. \<not> token_char c) s"

section \<open>Floats: exact cases\<close>

lemma pow2_powi: "pow2 e = 2 powi e"
  by (simp add: pow2_def power_int_def field_simps)

lemma pow2_pos [simp]: "0 < pow2 e"
  by (simp add: pow2_powi)

lemma pow2_add: "pow2 (a + b) = pow2 a * pow2 b"
  by (simp add: pow2_powi power_int_add)

lemma pow2_mono: "a \<le> b \<Longrightarrow> pow2 a \<le> pow2 b"
  by (simp add: pow2_powi power_int_increasing)

lemma pow2_less_cancel: "pow2 a < pow2 b \<Longrightarrow> a < b"
  using pow2_mono [of b a] by (cases "a < b") auto

lemma pow2_nat: "pow2 (int n) = 2 ^ n"
  by (simp add: pow2_def)

lemma bit_length_bounds: "0 < n \<Longrightarrow> 2 ^ (bit_length n - 1) \<le> n \<and> n < 2 ^ bit_length n"
proof (induction n rule: bit_length.induct)
  case (1 n)
  show ?case
  proof (cases "n div 2 = 0")
    case True
    with 1(2) have "n = 1" by (cases n) auto
    then show ?thesis by (simp add: bit_length.simps)
  next
    case False
    with 1 have ih: "2 ^ (bit_length (n div 2) - 1) \<le> n div 2" "n div 2 < 2 ^ bit_length (n div 2)"
      by auto
    have pos: "0 < bit_length (n div 2)" using False by (simp add: bit_length.simps)
    have bl: "bit_length n = Suc (bit_length (n div 2))" using 1(2) by (simp add: bit_length.simps)
    have "(2::nat) ^ (bit_length n - 1) = 2 * 2 ^ (bit_length (n div 2) - 1)"
      using pos bl by (cases "bit_length (n div 2)") auto
    moreover have "2 * (n div 2) \<le> n" by simp
    ultimately have lo: "2 ^ (bit_length n - 1) \<le> n" using ih(1) by linarith
    have "n < 2 * (n div 2) + 2" by presburger
    then have hi: "n < 2 ^ bit_length n" using ih(2) bl by simp
    from lo hi show ?thesis ..
  qed
qed

lemma ilog2_lower:
  assumes "0 < q"
  shows "pow2 (ilog2 q) \<le> q"
proof -
  obtain a b where ab: "quotient_of q = (a, b)" by (cases "quotient_of q")
  have bpos: "0 < b" using ab by (rule quotient_of_denom_pos)
  have q: "q = of_int a / of_int b" using ab by (rule quotient_of_div)
  have apos: "0 < a" using assms bpos q by (simp add: zero_less_divide_iff)
  define la where "la = bit_length (nat a)"
  define lb where "lb = bit_length (nat b)"
  have A: "2 ^ (la - 1) \<le> nat a" and B: "nat b < 2 ^ lb"
    using bit_length_bounds [of "nat a"] bit_length_bounds [of "nat b"] apos bpos
    by (auto simp: la_def lb_def)
  have la_pos: "0 < la" using apos by (simp add: la_def bit_length.simps)
  have A': "(2::rat) ^ (la - 1) \<le> of_int a"
  proof -
    have "(of_nat (2 ^ (la - 1)) :: rat) \<le> of_nat (nat a)" using A by (simp only: of_nat_le_iff)
    then show ?thesis using apos by simp
  qed
  have B': "of_int b \<le> (2::rat) ^ lb"
  proof -
    have "(of_nat (nat b) :: rat) \<le> of_nat (2 ^ lb)" using B by (simp only: of_nat_le_iff less_imp_le)
    then show ?thesis using bpos by simp
  qed
  have low: "pow2 (int la - int lb - 1) \<le> q"
  proof -
    have "int la - int lb - 1 = int (la - 1) + (- int lb)"
      using la_pos by simp
    then have "pow2 (int la - int lb - 1) = pow2 (int (la - 1)) * pow2 (- int lb)"
      by (simp only: pow2_add)
    also have "\<dots> = 2 ^ (la - 1) / 2 ^ lb"
      by (simp add: pow2_powi power_int_minus field_simps)
    also have "\<dots> \<le> of_int a / of_int b"
      using A' B' bpos apos by (intro frac_le) auto
    finally show ?thesis by (simp add: q)
  qed
  show ?thesis
    using low ab by (auto simp: ilog2_def la_def lb_def Let_def)
qed

lemma round_half_even_of_int [simp]: "round_half_even (of_int k) = k"
  by (simp add: round_half_even_def)

lemma to_double_exact:
  assumes "0 < m" "m < 2 ^ 53" "- 1074 \<le> k" "k \<le> 971"
  shows "to_double s (of_int m * pow2 k) = Finite s (of_int m * pow2 k)"
proof -
  define q where "q = (of_int m :: rat) * pow2 k"
  have qpos: "0 < q" using assms(1) by (simp add: q_def)
  have "q < 2 ^ 53 * pow2 k"
  proof -
    have "(of_int m :: rat) < of_int (2 ^ 53)" using assms(2) by (simp only: of_int_less_iff)
    then show ?thesis by (simp add: q_def)
  qed
  also have "\<dots> = pow2 (53 + k)"
  proof -
    have "pow2 53 = 2 ^ 53" by (simp add: pow2_def)
    then show ?thesis by (simp add: pow2_add)
  qed
  finally have qlt: "q < pow2 (53 + k)" .
  have "pow2 (ilog2 q) < pow2 (53 + k)" using ilog2_lower [OF qpos] qlt by simp
  then have L: "ilog2 q - 52 \<le> k" using pow2_less_cancel by fastforce
  define e where "e = max (ilog2 q - 52) (- 1074)"
  have ek: "e \<le> k" using L assms(3) by (simp add: e_def)
  have "q / pow2 e = of_int m * pow2 (k - e)"
    by (simp add: q_def pow2_powi power_int_diff)
  also have "\<dots> = of_int (m * 2 ^ nat (k - e))" using ek by (simp add: pow2_def)
  finally have quot: "q / pow2 e = of_int (m * 2 ^ nat (k - e))" .
  have rback: "of_int (round_half_even (q / pow2 e)) * pow2 e = q"
  proof -
    have "of_int (round_half_even (q / pow2 e)) * pow2 e = q / pow2 e * pow2 e"
      by (simp only: quot round_half_even_of_int)
    then show ?thesis using pow2_pos [of e] by simp
  qed
  have "pow2 (53 + k) \<le> pow2 1024" using assms(4) by (intro pow2_mono) simp
  then have fin: "\<not> pow2 1024 \<le> q" using qlt by simp
  show ?thesis
    using qpos rback fin by (simp add: to_double_def Let_def e_def [symmetric] q_def [symmetric])
qed

section \<open>Replacing\<close>

lemma replace_noop: "old \<noteq> [] \<Longrightarrow> \<not> sublist old s \<Longrightarrow> replace s old new = s"
  by (induction s) (auto simp: sublist_Cons_right)

lemma replace_skip:
  "old \<noteq> [] \<Longrightarrow> hd old \<notin> set p \<Longrightarrow> replace (p @ rest) old new = p @ replace rest old new"
proof (induction p)
  case Nil
  then show ?case by simp
next
  case (Cons a p)
  from Cons.prems have "\<not> prefix old (a # p @ rest)"
    by (cases old) auto
  with Cons show ?case by simp
qed

lemma replace_hit: "old \<noteq> [] \<Longrightarrow> replace (old @ rest) old new = new @ replace rest old new"
  by (cases old) auto

lemma prefix_append_comparable: "prefix old (x @ rest) \<Longrightarrow> prefix old x \<or> prefix x old"
  by (auto simp: prefix_append)

lemma replace_keep:
  "overlap_free t old \<Longrightarrow> old \<noteq> [] \<Longrightarrow> replace (t @ rest) old new = t @ replace rest old new"
proof (induction t)
  case Nil
  then show ?case by simp
next
  case (Cons a t)
  from Cons.prems have "\<not> prefix old ((a # t) @ rest)"
    using prefix_append_comparable [of old "a # t" rest] by auto
  with Cons show ?case by simp
qed

lemma prefix_replaceD:
  "new \<noteq> [] \<Longrightarrow> old \<noteq> [] \<Longrightarrow> set p \<inter> set new = {} \<Longrightarrow> prefix p (replace s old new) \<Longrightarrow>
     prefix p s"
proof (induction s old new arbitrary: p rule: replace.induct)
  case (1 old new)
  then show ?case by simp
next
  case (2 c cs old new)
  show ?case
  proof (cases "prefix old (c # cs)")
    case True
    with 2(5,7) have "prefix p (new @ replace (drop (length old) (c # cs)) old new)" by simp
    with 2(4,6) have "p = []"
      by (cases p; cases new) auto
    then show ?thesis by simp
  next
    case False
    with 2(5,7) have pr: "prefix p (c # replace cs old new)" by simp
    show ?thesis
    proof (cases p)
      case Nil
      then show ?thesis by simp
    next
      case (Cons a p')
      with pr have "a = c" "prefix p' (replace cs old new)" by auto
      moreover have "set p' \<inter> set new = {}" using 2(6) Cons by auto
      ultimately show ?thesis using 2(3) [OF 2(5) False 2(4) 2(5)] Cons by auto
    qed
  qed
qed

lemma sublist_append_disjoint:
  "tok \<noteq> [] \<Longrightarrow> set tok \<inter> set new = {} \<Longrightarrow> sublist tok (new @ r) \<Longrightarrow> sublist tok r"
proof (induction new)
  case Nil
  then show ?case by simp
next
  case (Cons a new)
  from Cons.prems(1,2) have "\<not> prefix tok (a # new @ r)" by (cases tok) auto
  with Cons show ?case by (auto simp: sublist_Cons_right)
qed

lemma sublist_replaceD:
  "new \<noteq> [] \<Longrightarrow> old \<noteq> [] \<Longrightarrow> tok \<noteq> [] \<Longrightarrow> set tok \<inter> set new = {} \<Longrightarrow>
     sublist tok (replace s old new) \<Longrightarrow> sublist tok s"
proof (induction s old new rule: replace.induct)
  case (1 old new)
  then show ?case by simp
next
  case (2 c cs old new)
  show ?case
  proof (cases "prefix old (c # cs)")
    case True
    with 2(5,8) have "sublist tok (new @ replace (drop (length old) (c # cs)) old new)" by simp
    then have "sublist tok (replace (drop (length old) (c # cs)) old new)"
      using sublist_append_disjoint 2(6,7) by blast
    then have "sublist tok (drop (length old) (c # cs))"
      using 2(2) [OF 2(5) True 2(4) 2(5) 2(6) 2(7)] by simp
    then show ?thesis
      using sublist_drop sublist_order.order.trans by blast
  next
    case False
    with 2(5,8) have "sublist tok (c # replace cs old new)" by simp
    then consider "prefix tok (c # replace cs old new)" | "sublist tok (replace cs old new)"
      by (auto simp: sublist_Cons_right)
    then show ?thesis
    proof cases
      case 1
      then have "prefix tok (replace (c # cs) old new)" using False 2(5) by simp
      then have "prefix tok (c # cs)" using prefix_replaceD 2(4,5,7) by blast
      then show ?thesis by (simp add: sublist_Cons_right)
    next
      case 2
      then have "sublist tok cs" using "2.IH"(3) [OF "2.prems"(2) False "2.prems"(1,2,3,4)] by simp
      then show ?thesis by (simp add: sublist_Cons_right)
    qed
  qed
qed

lemma replace_clears:
  assumes "new \<noteq> []" "old \<noteq> []" "set old \<inter> set new = {}"
  shows "\<not> sublist old (replace s old new)"
  using assms
proof (induction s old new rule: replace.induct)
  case (1 old new)
  then show ?case by simp
next
  case (2 c cs old new)
  show ?case
  proof (cases "prefix old (c # cs)")
    case True
    have "\<not> sublist old (replace (drop (length old) (c # cs)) old new)"
      using "2.IH"(2) [OF "2.prems"(2) True "2.prems"] .
    then have "\<not> sublist old (new @ replace (drop (length old) (c # cs)) old new)"
      using sublist_append_disjoint "2.prems" by blast
    then show ?thesis using True "2.prems"(2) by simp
  next
    case False
    have ih: "\<not> sublist old (replace cs old new)"
      using "2.IH"(3) [OF "2.prems"(2) False "2.prems"] .
    have "\<not> prefix old (c # replace cs old new)"
    proof
      assume "prefix old (c # replace cs old new)"
      then have "prefix old (replace (c # cs) old new)" using False "2.prems"(2) by simp
      then have "prefix old (c # cs)" using prefix_replaceD "2.prems" by blast
      with False show False by simp
    qed
    with ih show ?thesis using False "2.prems"(2) by (simp add: sublist_Cons_right)
  qed
qed

lemma replace_length:
  "old \<noteq> [] \<Longrightarrow>
     length (replace s old new) + count s old * length old = length s + count s old * length new"
proof (induction s old new rule: replace.induct)
  case (1 old new)
  then show ?case by simp
next
  case (2 c cs old new)
  show ?case
  proof (cases "prefix old (c # cs)")
    case True
    then have "length old \<le> length (c # cs)" by (rule prefix_length_le)
    then have "length (drop (length old) (c # cs)) + length old = length (c # cs)" by simp
    with 2(2) [OF 2(4) True 2(4)] True 2(4) show ?thesis by simp
  next
    case False
    with 2(3) [OF 2(4) False 2(4)] 2(4) show ?thesis by simp
  qed
qed

lemma overlap_free_suffix:
  "overlap_free t old \<Longrightarrow> suffix s t \<Longrightarrow> s \<noteq> [] \<Longrightarrow> \<not> prefix old s \<and> \<not> prefix s old"
proof (induction t)
  case Nil
  then show ?case by simp
next
  case (Cons a t)
  from Cons.prems(2) have "s = a # t \<or> suffix s t" by (auto simp: suffix_Cons)
  with Cons show ?case by auto
qed

lemma sublist_append_cases:
  "sublist t (u @ v) \<Longrightarrow> sublist t v \<or> (\<exists>s. s \<noteq> [] \<and> suffix s u \<and> prefix t (s @ v))"
proof (induction u)
  case Nil
  then show ?case by simp
next
  case (Cons a u)
  from Cons.prems consider "prefix t ((a # u) @ v)" | "sublist t (u @ v)"
    by (auto simp: sublist_Cons_right)
  then show ?case
  proof cases
    case 1
    then show ?thesis by (intro disjI2 exI [of _ "a # u"]) simp
  next
    case 2
    with Cons.IH show ?thesis by (auto simp: suffix_Cons)
  qed
qed

lemma sublist_past_match:
  assumes "overlap_free tok old" "overlap_free (tl old) tok" "old \<noteq> []" "tok \<noteq> []"
    and "sublist tok (old @ v)"
  shows "sublist tok v"
proof (rule ccontr)
  assume "\<not> sublist tok v"
  with sublist_append_cases [OF assms(5)]
  obtain s where s: "s \<noteq> []" "suffix s old" "prefix tok (s @ v)" by auto
  from s(3) have cmp: "prefix tok s \<or> prefix s tok" by (rule prefix_append_comparable)
  show False
  proof (cases "s = old")
    case True
    from assms(1,4) have "\<not> prefix old tok \<and> \<not> prefix tok old" by (cases tok) auto
    with cmp True show False by auto
  next
    case False
    with s(2) assms(3) have "suffix s (tl old)" by (cases old) (auto simp: suffix_Cons)
    from overlap_free_suffix [OF assms(2) this s(1)] cmp show False by auto
  qed
qed

lemma sublist_replaceI:
  "overlap_free tok old \<Longrightarrow> overlap_free (tl old) tok \<Longrightarrow> old \<noteq> [] \<Longrightarrow> tok \<noteq> [] \<Longrightarrow>
     sublist tok s \<Longrightarrow> sublist tok (replace s old new)"
proof (induction s old new rule: replace.induct)
  case (1 old new)
  then show ?case by simp
next
  case (2 c cs old new)
  note ne = "2.prems"(3)
  show ?case
  proof (cases "prefix old (c # cs)")
    case True
    then obtain v where v: "c # cs = old @ v" by (auto simp: prefix_def)
    then have dr: "drop (length old) (c # cs) = v" by simp
    from "2.prems"(5) v have "sublist tok (old @ v)" by simp
    then have "sublist tok v"
      using sublist_past_match "2.prems"(1,2,3,4) by blast
    then have "sublist tok (replace (drop (length old) (c # cs)) old new)"
      using "2.IH"(2) [OF ne True "2.prems"(1,2,3,4)] dr by simp
    then have "sublist tok (new @ replace (drop (length old) (c # cs)) old new)"
      by (metis sublist_def append.assoc)
    then show ?thesis using True ne by simp
  next
    case False
    from "2.prems"(5) consider "prefix tok (c # cs)" | "sublist tok cs"
      by (auto simp: sublist_Cons_right)
    then show ?thesis
    proof cases
      case 1
      then obtain v where v: "c # cs = tok @ v" by (auto simp: prefix_def)
      have "replace (tok @ v) old new = tok @ replace v old new"
        using "2.prems"(1) ne by (rule replace_keep)
      then show ?thesis using v by simp
    next
      case 2
      then have "sublist tok (replace cs old new)"
        using "2.IH"(3) [OF ne False "2.prems"(1,2,3,4)] by simp
      then show ?thesis using False ne by (simp add: sublist_Cons_right)
    qed
  qed
qed

lemma digit_char_is_digit: "d < 10 \<Longrightarrow> is_digit (digit_char d)"
proof -
  assume "d < 10"
  then have "d \<in> {0, 1, 2, 3, 4, 5, 6, 7, 8, 9}" by auto
  then show ?thesis by (auto simp: digit_char_def is_digit_def)
qed

lemma show_nat_digits: "c \<in> set (show_nat n) \<Longrightarrow> is_digit c"
proof (induction n rule: show_nat.induct)
  case (1 n)
  show ?case
  proof (cases "n < 10")
    case True
    with "1.prems" have "c = digit_char n" by (subst (asm) show_nat.simps) simp
    with True show ?thesis by (simp add: digit_char_is_digit)
  next
    case False
    with "1.prems" have "c \<in> set (show_nat (n div 10)) \<or> c = digit_char (n mod 10)"
      by (subst (asm) show_nat.simps) auto
    then show ?thesis using "1.IH" [OF False] digit_char_is_digit [of "n mod 10"] by auto
  qed
qed

lemma show_nat_nonempty [simp]: "show_nat n \<noteq> []"
  by (subst show_nat.simps) simp

lemma show_nat_digit_length: "d < 10 \<Longrightarrow> length (show_nat d) = 1"
  by (subst show_nat.simps) simp

lemma fixed_chars: "c \<in> set (fixed p q) \<Longrightarrow> is_digit c \<or> c = CHR ''.''"
  by (auto simp: fixed_def Let_def is_digit_def dest: show_nat_digits split: if_splits)

lemma fixed_nonempty [simp]: "fixed p q \<noteq> []"
  by (simp add: fixed_def Let_def)

lemma general1_chars: "c \<in> set (general1 q) \<Longrightarrow> is_digit c \<or> c = CHR ''e'' \<or> c = CHR ''+''"
  by (auto simp: general1_def Let_def is_digit_def dest: show_nat_digits split: if_splits)

lemma general1_nonempty [simp]: "general1 q \<noteq> []"
  by (simp add: general1_def Let_def)

lemma format_f_chars: "c \<in> set (format_f p x) \<Longrightarrow> \<not> token_char c"
proof (cases x)
  case (Finite neg q)
  assume "c \<in> set (format_f p x)"
  with Finite have "c = CHR ''-'' \<or> c \<in> set (general1 q) \<or> c \<in> set (fixed p q)"
    by (auto simp: sign_str_def split: if_splits)
  then have "is_digit c \<or> c = CHR ''-'' \<or> c = CHR ''.'' \<or> c = CHR ''e'' \<or> c = CHR ''+''"
    using fixed_chars general1_chars by blast
  then show ?thesis by (auto simp: token_char_def is_digit_def)
next
  case (Infinite neg)
  assume "c \<in> set (format_f p x)"
  with Infinite show ?thesis by (auto simp: sign_str_def token_char_def split: if_splits)
next
  case NaN
  assume "c \<in> set (format_f p x)"
  with NaN show ?thesis by (auto simp: token_char_def)
qed

lemma format_f_nonempty [simp]: "format_f p x \<noteq> []"
  by (cases x) (auto simp: sign_str_def)

lemma token_disjoint:
  "list_all token_char tok \<Longrightarrow> set tok \<inter> set (format_f p x) = {}"
  using format_f_chars by (auto simp: list_all_iff)

section \<open>Formatting\<close>




lemma round_half_even_numeral_int [simp]: "round_half_even (numeral k) = numeral k"
  using round_half_even_of_int [of "numeral k"] by simp

lemma to_double_nat: "n < 2 ^ 53 \<Longrightarrow> to_double s (of_nat n) = Finite s (of_nat n)"
proof (cases "n = 0")
  case True
  then show ?thesis by (simp add: to_double_def)
next
  case False
  assume "n < 2 ^ 53"
  then have "int n < 2 ^ 53" by (metis of_nat_less_iff of_nat_numeral of_nat_power)
  with False to_double_exact [of "int n" 0 s] show ?thesis
    by (simp add: pow2_def)
qed

lemma to_double_nat_1024:
  "n < 2 ^ 53 \<Longrightarrow> to_double s (of_nat n / 1024) = Finite s (of_nat n / 1024)"
proof (cases "n = 0")
  case True
  then show ?thesis by (simp add: to_double_def)
next
  case False
  assume "n < 2 ^ 53"
  then have "int n < 2 ^ 53" by (metis of_nat_less_iff of_nat_numeral of_nat_power)
  with False to_double_exact [of "int n" "- 10" s] show ?thesis
    by (simp add: pow2_def)
qed

lemma to_double_numeral:
  "(numeral k :: nat) < 2 ^ 53 \<Longrightarrow> to_double s (numeral k) = Finite s (numeral k)"
  using to_double_nat [of "numeral k" s] by simp

lemma small_quotient: "n < 2 ^ 53 \<Longrightarrow> \<not> (10 ^ 50 \<le> (of_nat n :: rat) / 1024)"
proof -
  assume "n < 2 ^ 53"
  then have "(of_nat n :: rat) < of_nat (2 ^ 53)" by (simp only: of_nat_less_iff)
  then show ?thesis by simp
qed

lemma size_text_exact:
  "n < 2 ^ 53 \<Longrightarrow> size_text n = show_nat (nat (round_half_even (of_nat n / 1024)))"
  by (simp add: size_text_def float_of_int_def to_double_nat to_double_nat_1024 small_quotient
      fixed_def sign_str_def)

lemma fixed_one_decimal: "fixed 1 q = one_decimal q"
  by (simp add: fixed_def one_decimal_def Let_def show_nat_digit_length)

lemma cloc_text_exact:
  "float cloc = Inr (Finite False (of_nat n)) \<Longrightarrow> n < 2 ^ 53 \<Longrightarrow>
     cloc_text cloc = Inr (one_decimal (of_nat n / 1024))"
  using fixed_one_decimal [of "of_nat n / 1024"]
  by (simp add: cloc_text_def to_double_nat_1024 small_quotient sign_str_def)

lemmas float_defs = float_def strip_def is_space_def take_sign_def to_lower_def is_digit_def
  exponent_def digits_val_def digit_val_def pow10_def Let_def

lemmas show_defs = show_nat.simps digit_char_def

section \<open>Running the script on given inputs\<close>

lemma cloc_command_eq:
  "cloc_command = CHR ''c'' # CHR ''l'' # CHR ''o'' # CHR ''c'' # drop 4 cloc_command"
  by (simp add: cloc_command_def)

lemma run_surroundings:
  "run (surroundings sample source m g out) =
     (case index (split out newline) 2 of
        Inl e \<Rightarrow> Inl e
      | Inr line \<Rightarrow>
          (case index (split line comma) 4 of
             Inl e \<Rightarrow> Inl e
           | Inr cloc \<Rightarrow>
               (case page sample source m g cloc of
                  Inl e \<Rightarrow> Inl e
                | Inr text \<Rightarrow> Inr (text @ [newline]))))"
  by (simp add: run_def surroundings_def split: sum.splits)

lemma size_text_2048: "size_text 2048 = ''2''"
proof -
  have "size_text 2048 = show_nat (nat (round_half_even (of_nat 2048 / 1024)))"
    by (rule size_text_exact) simp
  also have "\<dots> = show_nat 2" by simp
  finally show ?thesis by (simp add: show_nat.simps digit_char_def)
qed

lemma size_text_1024: "size_text 1024 = ''1''"
proof -
  have "size_text 1024 = show_nat (nat (round_half_even (of_nat 1024 / 1024)))"
    by (rule size_text_exact) simp
  also have "\<dots> = show_nat 1" by (simp add: round_half_even_def)
  finally show ?thesis by (simp add: show_nat.simps digit_char_def)
qed

lemma one_decimal_2: "one_decimal (of_nat 2048 / 1024) = ''2.0''"
  by (simp add: one_decimal_def Let_def show_nat.simps digit_char_def)

lemma cloc_csv_2048:
  "index (split (cloc_csv ''2048'') newline) 2 = Inr ''1,JavaScript,12,34,2048''"
  "index (split ''1,JavaScript,12,34,2048'' comma) 4 = Inr ''2048''"
  by (simp_all add: cloc_csv_def newline_def comma_def index_def)

lemma float_2048: "float ''2048'' = Inr (Finite False (of_nat 2048))"
  by (simp add: float_defs to_double_numeral)

lemma cloc_text_2048: "cloc_text ''2048'' = Inr ''2.0''"
proof -
  have "cloc_text ''2048'' = Inr (one_decimal (of_nat 2048 / 1024))"
    using float_2048 by (rule cloc_text_exact) simp
  then show ?thesis by (simp only: one_decimal_2)
qed

lemma e2e_page:
  "page ''<p>SOURCE lines, MINIFIED_SIZE KB min, GZIP_SIZE KB gz, CLOCk loc</p>'' ''const x = 1;''
     2048 1024 ''2048'' = Inr ''<p>const x = 1; lines, 2 KB min, 1 KB gz, 2.0k loc</p>''"
  by (simp add: page_def size_text_2048 size_text_1024 cloc_text_2048)

lemma run_e2e_world:
  "run e2e_world = Inr (''<p>const x = 1; lines, 2 KB min, 1 KB gz, 2.0k loc</p>'' @ [newline])"
  by (simp only: e2e_world_def run_surroundings cloc_csv_2048 e2e_template_def e2e_page sum.case)

lemma run_no_cloc_world: "run no_cloc_world = Inl IndexError"
  by (simp add: no_cloc_world_def run_surroundings index_def newline_def)

section \<open>Numeric examples\<close>















section \<open>Occurrences of the placeholders\<close>

lemma sublist_snoc_disjoint:
  "tok \<noteq> [] \<Longrightarrow> c \<notin> set tok \<Longrightarrow> sublist tok (s @ [c]) \<Longrightarrow> sublist tok s"
proof (induction s)
  case Nil
  then have "prefix tok [c]" by (simp add: sublist_Cons_right)
  then have "tok = [] \<or> tok = [c]" by (cases tok) auto
  with Nil show ?case by auto
next
  case (Cons a s)
  from Cons.prems(3) consider "prefix tok ((a # s) @ [c])" | "sublist tok (s @ [c])"
    by (auto simp: sublist_Cons_right)
  then show ?case
  proof cases
    case 1
    then have "tok = (a # s) @ [c] \<or> prefix tok (a # s)" by (simp only: prefix_snoc)
    with Cons.prems(2) have "prefix tok (a # s)" by auto
    then show ?thesis by (rule prefix_imp_sublist)
  next
    case 2
    then have "sublist tok s" using Cons by blast
    then show ?thesis by (simp add: sublist_Cons_right)
  qed
qed

lemma cloc_text_format: "cloc_text cloc = Inr v \<Longrightarrow> \<exists>x. v = format_f 1 (div_1024 x)"
  by (cases "float cloc") (auto simp: cloc_text_def)

lemma token_chars:
  "list_all token_char ''SOURCE''" "list_all token_char ''MINIFIED_SIZE''"
  "list_all token_char ''GZIP_SIZE''" "list_all token_char ''CLOC''"
  by (simp_all add: token_char_def)

lemma size_text_disjoint: "list_all token_char tok \<Longrightarrow> set tok \<inter> set (size_text n) = {}"
  unfolding size_text_def by (rule token_disjoint)

lemma size_text_nonempty [simp]: "size_text n \<noteq> []"
  by (simp add: size_text_def)

lemma count_pos_sublist:
  "old \<noteq> [] \<Longrightarrow> 0 < count s old \<Longrightarrow> sublist new (replace s old new)"
proof (induction s old new rule: replace.induct)
  case (1 old new)
  then show ?case by simp
next
  case (2 c cs old new)
  show ?case
  proof (cases "prefix old (c # cs)")
    case True
    then show ?thesis using "2.prems"(1) by simp
  next
    case False
    with "2.prems" have "0 < count cs old" by simp
    then have "sublist new (replace cs old new)"
      using "2.IH"(3) [OF "2.prems"(1) False "2.prems"(1)] by simp
    then show ?thesis using False "2.prems"(1) by (simp add: sublist_Cons_right)
  qed
qed

lemma sublist_set: "sublist xs ys \<Longrightarrow> set xs \<subseteq> set ys"
  by (auto simp: sublist_def)

lemma replace_missing_char:
  "c \<in> set old \<Longrightarrow> c \<notin> set s \<Longrightarrow> replace s old new = s"
  using sublist_set [of old s] by (intro replace_noop) auto

lemma prefix_append_long: "prefix xs (ys @ zs) \<Longrightarrow> length xs \<le> length ys \<Longrightarrow> prefix xs ys"
  by (auto simp: prefix_append)

lemma replace_step:
  "old \<noteq> [] \<Longrightarrow> \<not> sublist old (p @ butlast old) \<Longrightarrow>
     replace (p @ old @ rest) old new = p @ new @ replace rest old new"
proof (induction p)
  case Nil
  then show ?case by (simp add: replace_hit)
next
  case (Cons a p)
  have "\<not> prefix old ((a # p) @ old @ rest)"
  proof
    assume pr: "prefix old ((a # p) @ old @ rest)"
    have eq: "(a # p) @ old @ rest = ((a # p) @ butlast old) @ (last old # rest)"
      using Cons.prems(1) by simp
    from pr have "prefix old (((a # p) @ butlast old) @ (last old # rest))"
      by (simp only: eq)
    then have "prefix old ((a # p) @ butlast old)"
      by (rule prefix_append_long) simp
    then have "sublist old ((a # p) @ butlast old)" by (rule prefix_imp_sublist)
    with Cons.prems(2) show False by simp
  qed
  moreover have "\<not> sublist old (p @ butlast old)"
    using Cons.prems(2) by (auto simp: sublist_Cons_right)
  ultimately show ?case using Cons by simp
qed

lemma replace_every:
  "old \<noteq> [] \<Longrightarrow> \<forall>p \<in> set ps. \<not> sublist old (p @ butlast old) \<Longrightarrow> \<not> sublist old q \<Longrightarrow>
     replace (concat (map (\<lambda>p. p @ old) ps) @ q) old new = concat (map (\<lambda>p. p @ new) ps) @ q"
  by (induction ps) (simp_all add: replace_noop replace_step)

lemma overlap_facts:
  "overlap_free ''SOURCE'' ''MINIFIED_SIZE''" "overlap_free (tl ''MINIFIED_SIZE'') ''SOURCE''"
  "overlap_free ''SOURCE'' ''GZIP_SIZE''" "overlap_free (tl ''GZIP_SIZE'') ''SOURCE''"
  "overlap_free ''SOURCE'' ''CLOC''" "overlap_free (tl ''CLOC'') ''SOURCE''"
  by simp_all

section \<open>The text after the four replacements\<close>

lemma run_InrD:
  assumes "run w = Inr out"
  shows "\<exists>sample source m g v x.
    read_file w ''Sample.html.in'' = Some sample \<and> read_file w ''Editor.jsx.bin'' = Some source \<and>
    getsize w ''Editor.js'' = Some m \<and> getsize w ''Editor.js.gz'' = Some g \<and>
    v = format_f 1 (div_1024 x) \<and>
    out = replace (replace (replace (replace sample ''SOURCE'' source)
            ''MINIFIED_SIZE'' (size_text m)) ''GZIP_SIZE'' (size_text g)) ''CLOC'' v @ [newline]"
proof -
  from assms obtain sample where 1: "read_file w ''Sample.html.in'' = Some sample"
    by (cases "read_file w ''Sample.html.in''") (auto simp: run_def)
  from assms 1 obtain source where 2: "read_file w ''Editor.jsx.bin'' = Some source"
    by (cases "read_file w ''Editor.jsx.bin''") (auto simp: run_def)
  from assms 1 2 obtain line where 3: "index (split (getoutput w cloc_command) newline) 2 = Inr line"
    by (cases "index (split (getoutput w cloc_command) newline) 2") (auto simp: run_def)
  from assms 1 2 3 obtain cloc where 4: "index (split line comma) 4 = Inr cloc"
    by (cases "index (split line comma) 4") (auto simp: run_def)
  from assms 1 2 3 4 obtain m where 5: "getsize w ''Editor.js'' = Some m"
    by (cases "getsize w ''Editor.js''") (auto simp: run_def)
  from assms 1 2 3 4 5 obtain g where 6: "getsize w ''Editor.js.gz'' = Some g"
    by (cases "getsize w ''Editor.js.gz''") (auto simp: run_def)
  from assms 1 2 3 4 5 6 obtain pt where 7: "page sample source m g cloc = Inr pt"
    and 8: "out = pt @ [newline]"
    by (cases "page sample source m g cloc") (auto simp: run_def)
  from 7 obtain v where 9: "cloc_text cloc = Inr v"
    and 10: "pt = replace (replace (replace (replace sample ''SOURCE'' source)
            ''MINIFIED_SIZE'' (size_text m)) ''GZIP_SIZE'' (size_text g)) ''CLOC'' v"
    by (cases "cloc_text cloc") (auto simp: page_def Let_def)
  from 9 obtain x where 11: "v = format_f 1 (div_1024 x)"
    using cloc_text_format by blast
  from 1 2 5 6 8 10 11 show ?thesis by blast
qed

lemma tokens_after_substitution:
  fixes sample source a b v :: string
  assumes a: "a \<noteq> []" "\<And>c. c \<in> set a \<Longrightarrow> \<not> token_char c"
    and b: "b \<noteq> []" "\<And>c. c \<in> set b \<Longrightarrow> \<not> token_char c"
    and v: "v \<noteq> []" "\<And>c. c \<in> set v \<Longrightarrow> \<not> token_char c"
  defines "s1 \<equiv> replace sample ''SOURCE'' source"
    and "s2 \<equiv> replace (replace sample ''SOURCE'' source) ''MINIFIED_SIZE'' a"
    and "s3 \<equiv> replace (replace (replace sample ''SOURCE'' source) ''MINIFIED_SIZE'' a) ''GZIP_SIZE'' b"
    and "t \<equiv> replace (replace (replace (replace sample ''SOURCE'' source) ''MINIFIED_SIZE'' a)
                 ''GZIP_SIZE'' b) ''CLOC'' v"
  shows "\<not> sublist ''MINIFIED_SIZE'' t" and "\<not> sublist ''GZIP_SIZE'' t"
    and "\<not> sublist ''CLOC'' t" and "sublist ''SOURCE'' t \<Longrightarrow> sublist ''SOURCE'' s1"
proof -
  have dis: "set tok \<inter> set u = {}"
    if "list_all token_char tok" "\<And>c. c \<in> set u \<Longrightarrow> \<not> token_char c" for tok u
    using that by (auto simp: list_all_iff)
  note da = dis [OF _ a(2)] and db = dis [OF _ b(2)] and dv = dis [OF _ v(2)]
  have s2: "s2 = replace s1 ''MINIFIED_SIZE'' a" and s3: "s3 = replace s2 ''GZIP_SIZE'' b"
    and t: "t = replace s3 ''CLOC'' v"
    by (simp_all only: s1_def s2_def s3_def t_def)
  have m2: "\<not> sublist ''MINIFIED_SIZE'' s2"
    unfolding s2 by (rule replace_clears [OF a(1) _ da [OF token_chars(2)]]) simp
  have m3: "\<not> sublist ''MINIFIED_SIZE'' s3"
    using m2 sublist_replaceD [OF b(1) _ _ db [OF token_chars(2)], of "''GZIP_SIZE''" s2]
    unfolding s3 by auto
  show "\<not> sublist ''MINIFIED_SIZE'' t"
    using m3 sublist_replaceD [OF v(1) _ _ dv [OF token_chars(2)], of "''CLOC''" s3]
    unfolding t by auto
  have g3: "\<not> sublist ''GZIP_SIZE'' s3"
    unfolding s3 by (rule replace_clears [OF b(1) _ db [OF token_chars(3)]]) simp
  show "\<not> sublist ''GZIP_SIZE'' t"
    using g3 sublist_replaceD [OF v(1) _ _ dv [OF token_chars(3)], of "''CLOC''" s3]
    unfolding t by auto
  show "\<not> sublist ''CLOC'' t"
    unfolding t by (rule replace_clears [OF v(1) _ dv [OF token_chars(4)]]) simp
  show "sublist ''SOURCE'' s1" if "sublist ''SOURCE'' t"
  proof -
    from that have "sublist ''SOURCE'' s3"
      using sublist_replaceD [OF v(1) _ _ dv [OF token_chars(1)], of "''CLOC''" s3]
      unfolding t by auto
    then have "sublist ''SOURCE'' s2"
      using sublist_replaceD [OF b(1) _ _ db [OF token_chars(1)], of "''GZIP_SIZE''" s2]
      unfolding s3 by auto
    then show ?thesis
      using sublist_replaceD [OF a(1) _ _ da [OF token_chars(1)], of "''MINIFIED_SIZE''" s1]
      unfolding s2 by auto
  qed
qed

lemma source_token_page:
  "page e2e_template ''var SOURCE = 1;'' 2048 1024 ''2048'' =
     Inr ''<p>var SOURCE = 1; lines, 2 KB min, 1 KB gz, 2.0k loc</p>''"
  by (simp add: page_def e2e_template_def size_text_2048 size_text_1024 cloc_text_2048)

lemma run_source_token_world:
  "run source_token_world =
     Inr (''<p>var SOURCE = 1; lines, 2 KB min, 1 KB gz, 2.0k loc</p>'' @ [newline])"
  by (simp only: source_token_world_def run_surroundings cloc_csv_2048 source_token_page sum.case)

lemma float_1024: "float ''1024'' = Inr (Finite False (of_nat 1024))"
  by (simp add: float_defs to_double_numeral)

lemma one_decimal_1: "one_decimal (of_nat 1024 / 1024) = ''1.0''"
  by (simp add: one_decimal_def Let_def round_half_even_def show_nat.simps digit_char_def)

lemma cloc_text_1024: "cloc_text ''1024'' = Inr ''1.0''"
proof -
  have "cloc_text ''1024'' = Inr (one_decimal (of_nat 1024 / 1024))"
    using float_1024 by (rule cloc_text_exact) simp
  then show ?thesis by (simp only: one_decimal_1)
qed

lemma cloc_csv_1024:
  "index (split (cloc_csv ''1024'') newline) 2 = Inr ''1,JavaScript,12,34,1024''"
  "index (split ''1,JavaScript,12,34,1024'' comma) 4 = Inr ''1024''"
  by (simp_all add: cloc_csv_def newline_def comma_def index_def)

lemma length_page:
  "page ''SOURCE MINIFIED_SIZE GZIP_SIZE CLOC'' ''CLOC'' 1024 1024 ''1024'' = Inr ''1.0 1 1 1.0''"
  by (simp add: page_def size_text_1024 cloc_text_1024)

lemma run_length_world: "run length_world = Inr (''1.0 1 1 1.0'' @ [newline])"
  by (simp only: length_world_def run_surroundings cloc_csv_1024 length_page sum.case)

lemma absent_token_page:
  "page ''<pre>SOURCE</pre>'' ''CLOC'' 2048 1024 ''2048'' = Inr ''<pre>2.0</pre>''"
  by (simp add: page_def size_text_2048 size_text_1024 cloc_text_2048)

lemma run_absent_token_world: "run absent_token_world = Inr (''<pre>2.0</pre>'' @ [newline])"
  by (simp only: absent_token_world_def run_surroundings cloc_csv_2048 absent_token_page sum.case)

lemma plain_notin: "plain s \<Longrightarrow> token_char c \<Longrightarrow> c \<notin> set s"
  by (auto simp: plain_def list_all_iff)

lemma plain_format [simp]: "plain (format_f p x)"
  using format_f_chars by (auto simp: plain_def list_all_iff)

lemma plain_size_text [simp]: "plain (size_text n)"
  by (simp add: size_text_def)

lemma plain_cloc_text: "cloc_text cloc = Inr v \<Longrightarrow> plain v"
  using cloc_text_format by fastforce

lemma token_char_heads:
  "token_char (CHR ''S'')" "token_char (CHR ''M'')" "token_char (CHR ''G'')"
  "token_char (CHR ''C'')" "token_char (CHR ''L'')"
  by (simp_all add: token_char_def)

lemma replace_one:
  assumes "old \<noteq> []" "hd old \<notin> set p" "hd old \<notin> set q"
  shows "replace (p @ old @ q) old new = p @ new @ q"
proof -
  have "hd old \<in> set old" using assms(1) by simp
  then have "replace q old new = q" using assms(3) by (rule replace_missing_char)
  then show ?thesis using assms(1,2) by (simp add: replace_skip replace_hit)
qed

lemma inert_first_step:
  assumes "plain pre" "plain post"
  shows "replace (pre @ ''SOURCE'' @ post) ''SOURCE'' src = pre @ src @ post"
  using plain_notin [OF assms(1) token_char_heads(1)] plain_notin [OF assms(2) token_char_heads(1)]
  by (intro replace_one) simp_all

lemma inert_minified:
  assumes "plain pre" "plain post" "plain x" "plain y" "cloc_text cloc = Inr v"
  shows "page (pre @ ''SOURCE'' @ post) (x @ ''MINIFIED_SIZE'' @ y) m g cloc =
           Inr (pre @ x @ size_text m @ y @ post)"
proof -
  note pv = plain_cloc_text [OF assms(5)]
  note M = token_char_heads(2) and G = token_char_heads(3) and L = token_char_heads(5)
  have s1: "replace (pre @ ''SOURCE'' @ post) ''SOURCE'' (x @ ''MINIFIED_SIZE'' @ y) =
      (pre @ x) @ ''MINIFIED_SIZE'' @ (y @ post)"
    using inert_first_step [OF assms(1,2)] by simp
  have s2: "replace ((pre @ x) @ ''MINIFIED_SIZE'' @ (y @ post)) ''MINIFIED_SIZE'' (size_text m) =
      (pre @ x) @ size_text m @ (y @ post)"
    using plain_notin [OF assms(1) M] plain_notin [OF assms(2) M] plain_notin [OF assms(3) M]
      plain_notin [OF assms(4) M]
    by (intro replace_one) simp_all
  have s3: "replace ((pre @ x) @ size_text m @ (y @ post)) ''GZIP_SIZE'' (size_text g) =
      (pre @ x) @ size_text m @ (y @ post)"
    using plain_notin [OF assms(1) G] plain_notin [OF assms(2) G] plain_notin [OF assms(3) G]
      plain_notin [OF assms(4) G] plain_notin [OF plain_size_text G, of m]
    by (intro replace_missing_char [of "CHR ''G''"]) simp_all
  have s4: "replace ((pre @ x) @ size_text m @ (y @ post)) ''CLOC'' v =
      (pre @ x) @ size_text m @ (y @ post)"
    using plain_notin [OF assms(1) L] plain_notin [OF assms(2) L] plain_notin [OF assms(3) L]
      plain_notin [OF assms(4) L] plain_notin [OF plain_size_text L, of m]
    by (intro replace_missing_char [of "CHR ''L''"]) simp_all
  show ?thesis
    by (simp only: page_def Let_def assms(5) sum.case s1 s2 s3 s4) simp
qed


section \<open>Properties\<close>

subsection \<open>The end-to-end scenario\<close>

text \<open>
  Claim C1, as amended. With the template
  \<^verbatim>\<open><p>SOURCE lines, MINIFIED_SIZE KB min, GZIP_SIZE KB gz, CLOCk loc</p>\<close>, the source
  listing \<^verbatim>\<open>const x = 1;\<close>, a minified bundle of 2048 bytes, a gzip bundle of 1024 bytes
  and any tool output whose third line has \<^verbatim>\<open>2048\<close> as its fifth comma-separated field,
  the script exits normally and the standard output holds
  \<^verbatim>\<open><p>const x = 1; lines, 2 KB min, 1 KB gz, 2.0k loc</p>\<close> followed by one newline
  character, the one \<^verbatim>\<open>print\<close> adds.
\<close>

theorem e2e_stdout:
  assumes "read_file w ''Sample.html.in'' =
      Some ''<p>SOURCE lines, MINIFIED_SIZE KB min, GZIP_SIZE KB gz, CLOCk loc</p>''"
    and "read_file w ''Editor.jsx.bin'' = Some ''const x = 1;''"
    and "getsize w ''Editor.js'' = Some 2048"
    and "getsize w ''Editor.js.gz'' = Some 1024"
    and "index (split (getoutput w cloc_command) newline) 2 = Inr line"
    and "index (split line comma) 4 = Inr ''2048''"
  shows "run w = Inr (''<p>const x = 1; lines, 2 KB min, 1 KB gz, 2.0k loc</p>'' @ [newline])"
  using assms by (simp add: run_def e2e_page)

theorem e2e_stdout_witness:
  "run e2e_world = Inr (''<p>const x = 1; lines, 2 KB min, 1 KB gz, 2.0k loc</p>'' @ [newline])"
proof (rule e2e_stdout [of e2e_world "''1,JavaScript,12,34,2048''"])
  show "read_file e2e_world ''Sample.html.in'' =
      Some ''<p>SOURCE lines, MINIFIED_SIZE KB min, GZIP_SIZE KB gz, CLOCk loc</p>''"
    by (simp add: e2e_world_def surroundings_def e2e_template_def)
  show "read_file e2e_world ''Editor.jsx.bin'' = Some ''const x = 1;''"
    by (simp add: e2e_world_def surroundings_def)
  show "getsize e2e_world ''Editor.js'' = Some 2048"
    by (simp add: e2e_world_def surroundings_def)
  show "getsize e2e_world ''Editor.js.gz'' = Some 1024"
    by (simp add: e2e_world_def surroundings_def)
  show "index (split (getoutput e2e_world cloc_command) newline) 2 = Inr ''1,JavaScript,12,34,2048''"
    by (simp add: e2e_world_def surroundings_def cloc_csv_2048)
  show "index (split ''1,JavaScript,12,34,2048'' comma) 4 = Inr ''2048''"
    by (rule cloc_csv_2048)
qed

text \<open>The standard output is not exactly the page: it is one byte longer.\<close>

theorem e2e_stdout_counterexample:
  "stdout (run e2e_world) \<noteq> ''<p>const x = 1; lines, 2 KB min, 1 KB gz, 2.0k loc</p>''"
  by (simp add: run_e2e_world stdout_def)

subsection \<open>Tool output of fewer than three lines\<close>

text \<open>
  Claim C3, as amended. When the template and the source listing are readable and the tool's
  output has fewer than three lines, the third line does not exist and the script ends in an
  uncaught IndexError: nothing is written to the standard output and the exit status is 1.
  The script has no error classes of its own; the failure is the index fault itself.
\<close>

theorem short_output_index_error:
  assumes "read_file w ''Sample.html.in'' = Some sample"
    and "read_file w ''Editor.jsx.bin'' = Some source"
    and "length (split (getoutput w cloc_command) newline) < 3"
  shows "run w = Inl IndexError \<and> stdout (run w) = [] \<and> exit_status (run w) = 1"
  using assms by (simp add: run_def index_def stdout_def exit_status_def)

theorem short_output_index_error_witness:
  "run no_cloc_world = Inl IndexError \<and> stdout (run no_cloc_world) = [] \<and>
   exit_status (run no_cloc_world) = 1"
proof (rule short_output_index_error)
  show "read_file no_cloc_world ''Sample.html.in'' = Some e2e_template"
    by (simp add: no_cloc_world_def surroundings_def)
  show "read_file no_cloc_world ''Editor.jsx.bin'' = Some ''const x = 1;''"
    by (simp add: no_cloc_world_def surroundings_def)
  show "length (split (getoutput no_cloc_world cloc_command) newline) < 3"
    by (simp add: no_cloc_world_def surroundings_def newline_def)
qed

text \<open>A shell that finds no \<^verbatim>\<open>cloc\<close> prints one line, and the run ends in the index
  fault.\<close>

theorem short_output_counterexample: "run no_cloc_world = Inl IndexError"
  by (rule run_no_cloc_world)

subsection \<open>A missing minified bundle\<close>

text \<open>
  Claim C7. When the minified bundle does not exist, the run ends in an exception (the
  OSError of \<^verbatim>\<open>os.path.getsize\<close>, or an earlier one): the exit status is not zero and
  not one byte is written to the standard output, since \<^verbatim>\<open>print\<close> is the last thing
  the script does.
\<close>

theorem missing_bundle_no_output:
  "getsize w ''Editor.js'' = None \<Longrightarrow> exit_status (run w) \<noteq> 0 \<and> stdout (run w) = []"
  by (simp add: run_def stdout_def exit_status_def split: option.splits sum.splits)

theorem missing_bundle_no_output_witness:
  "getsize no_bundle_world ''Editor.js'' = None \<and> exit_status (run no_bundle_world) \<noteq> 0 \<and>
   stdout (run no_bundle_world) = []"
  using missing_bundle_no_output [of no_bundle_world] by (simp add: no_bundle_world_def)

subsection \<open>Determinism\<close>

text \<open>
  Claim C8. The outcome of a run depends on nothing but the contents of the template and of
  the source listing, the sizes of the two bundles and the output of the line-counting
  command: two surroundings that agree on these five give the same outcome, byte for byte on
  the standard output, whatever else differs between them.
\<close>

theorem run_deterministic:
  assumes "read_file w1 ''Sample.html.in'' = read_file w2 ''Sample.html.in''"
    and "read_file w1 ''Editor.jsx.bin'' = read_file w2 ''Editor.jsx.bin''"
    and "getoutput w1 cloc_command = getoutput w2 cloc_command"
    and "getsize w1 ''Editor.js'' = getsize w2 ''Editor.js''"
    and "getsize w1 ''Editor.js.gz'' = getsize w2 ''Editor.js.gz''"
  shows "run w1 = run w2 \<and> stdout (run w1) = stdout (run w2)"
  unfolding run_def assms by simp

theorem run_deterministic_witness:
  "run e2e_world = run busy_world \<and> stdout (run e2e_world) = stdout (run busy_world) \<and>
   read_file e2e_world ''README.md'' \<noteq> read_file busy_world ''README.md''"
proof -
  have "run e2e_world = run busy_world \<and> stdout (run e2e_world) = stdout (run busy_world)"
    by (rule run_deterministic) (simp_all add: busy_world_def cloc_command_def)
  moreover have "read_file e2e_world ''README.md'' \<noteq> read_file busy_world ''README.md''"
    by (simp add: busy_world_def e2e_world_def surroundings_def)
  ultimately show ?thesis by simp
qed

subsection \<open>The line count\<close>




subsection \<open>The bundle sizes\<close>




subsection \<open>Placeholders left in the output\<close>

text \<open>
  Claim C4, as amended. For every valid input (the run ends normally) the standard output
  has no occurrence of MINIFIED_SIZE, of GZIP_SIZE or of CLOC: each is replaced by a text of
  digits and other characters that occur in no placeholder, and no later replacement can put
  it back. SOURCE is different: the source listing is inserted verbatim and is not scanned
  again, so the output has an occurrence of SOURCE only when the text right after the first
  replacement has one, as it does when the source listing itself contains the word.
\<close>

theorem later_tokens_gone:
  assumes "run w = Inr out"
    and "read_file w ''Sample.html.in'' = Some sample"
    and "read_file w ''Editor.jsx.bin'' = Some source"
  shows "\<not> sublist ''MINIFIED_SIZE'' out \<and> \<not> sublist ''GZIP_SIZE'' out \<and>
         \<not> sublist ''CLOC'' out \<and>
         (sublist ''SOURCE'' out \<longrightarrow> sublist ''SOURCE'' (replace sample ''SOURCE'' source))"
proof -
  from run_InrD [OF assms(1)] assms(2,3) obtain m g x where
    out: "out = replace (replace (replace (replace sample ''SOURCE'' source)
            ''MINIFIED_SIZE'' (size_text m)) ''GZIP_SIZE'' (size_text g))
            ''CLOC'' (format_f 1 (div_1024 x)) @ [newline]"
    by auto
  define t where "t = replace (replace (replace (replace sample ''SOURCE'' source)
            ''MINIFIED_SIZE'' (size_text m)) ''GZIP_SIZE'' (size_text g))
            ''CLOC'' (format_f 1 (div_1024 x))"
  have sz: "\<not> token_char c" if "c \<in> set (size_text n)" for c n
    using that format_f_chars unfolding size_text_def by blast
  note facts = tokens_after_substitution [of "size_text m" "size_text g" "format_f 1 (div_1024 x)"
      sample source, OF size_text_nonempty sz size_text_nonempty sz format_f_nonempty format_f_chars,
      folded t_def]
  have nl: "newline \<notin> set tok" if "list_all token_char tok" for tok
    using that by (auto simp: list_all_iff newline_def token_char_def)
  have drop_nl: "sublist tok t" if "sublist tok (t @ [newline])" "list_all token_char tok" "tok \<noteq> []" for tok
    using sublist_snoc_disjoint [OF that(3) nl [OF that(2)] that(1)] .
  have 1: "\<not> sublist ''MINIFIED_SIZE'' out"
    using facts(1) drop_nl [OF _ token_chars(2)] unfolding out t_def [symmetric] by auto
  have 2: "\<not> sublist ''GZIP_SIZE'' out"
    using facts(2) drop_nl [OF _ token_chars(3)] unfolding out t_def [symmetric] by auto
  have 3: "\<not> sublist ''CLOC'' out"
    using facts(3) drop_nl [OF _ token_chars(4)] unfolding out t_def [symmetric] by auto
  have 4: "sublist ''SOURCE'' out \<longrightarrow> sublist ''SOURCE'' (replace sample ''SOURCE'' source)"
    using facts(4) drop_nl [OF _ token_chars(1)] unfolding out t_def [symmetric] by auto
  from 1 2 3 4 show ?thesis by blast
qed

theorem later_tokens_gone_witness:
  "\<not> sublist ''MINIFIED_SIZE'' (''<p>var SOURCE = 1; lines, 2 KB min, 1 KB gz, 2.0k loc</p>'' @ [newline]) \<and>
   \<not> sublist ''GZIP_SIZE'' (''<p>var SOURCE = 1; lines, 2 KB min, 1 KB gz, 2.0k loc</p>'' @ [newline]) \<and>
   \<not> sublist ''CLOC'' (''<p>var SOURCE = 1; lines, 2 KB min, 1 KB gz, 2.0k loc</p>'' @ [newline]) \<and>
   sublist ''SOURCE'' (replace e2e_template ''SOURCE'' ''var SOURCE = 1;'')"
proof -
  have 1: "read_file source_token_world ''Sample.html.in'' = Some e2e_template"
    by (simp add: source_token_world_def surroundings_def)
  have 2: "read_file source_token_world ''Editor.jsx.bin'' = Some ''var SOURCE = 1;''"
    by (simp add: source_token_world_def surroundings_def)
  have 3: "sublist ''SOURCE'' (''<p>var '' @ ''SOURCE'' @ '' = 1; lines, 2 KB min, 1 KB gz, 2.0k loc</p>'' @ [newline])"
    by (rule sublist_appendI)
  then have 4: "sublist ''SOURCE'' (''<p>var SOURCE = 1; lines, 2 KB min, 1 KB gz, 2.0k loc</p>'' @ [newline])"
    by simp
  from later_tokens_gone [OF run_source_token_world 1 2] 4 show ?thesis by blast
qed

text \<open>A source listing that mentions SOURCE leaves it in the output.\<close>

theorem later_tokens_gone_counterexample:
  "run source_token_world =
     Inr (''<p>var SOURCE = 1; lines, 2 KB min, 1 KB gz, 2.0k loc</p>'' @ [newline]) \<and>
   sublist ''SOURCE'' (stdout (run source_token_world))"
proof -
  have "sublist ''SOURCE'' (''<p>var '' @ ''SOURCE'' @ '' = 1; lines, 2 KB min, 1 KB gz, 2.0k loc</p>'' @ [newline])"
    by (rule sublist_appendI)
  then show ?thesis by (simp add: run_source_token_world stdout_def)
qed

subsection \<open>The length of the output\<close>

text \<open>
  Claim C5, as amended. For every valid input in which each placeholder has exactly one
  occurrence in the text its replacement is applied to (the template for SOURCE, the result
  of the earlier replacements for the others), the text given to \<^verbatim>\<open>print\<close> has the
  length of the template, minus the lengths of the four placeholders, plus the lengths of the
  four values; the standard output is that text and a newline, one byte longer.
\<close>

theorem output_length:
  assumes "read_file w ''Sample.html.in'' = Some sample"
    and "read_file w ''Editor.jsx.bin'' = Some source"
    and "index (split (getoutput w cloc_command) newline) 2 = Inr line"
    and "index (split line comma) 4 = Inr cloc"
    and "getsize w ''Editor.js'' = Some m"
    and "getsize w ''Editor.js.gz'' = Some g"
    and "cloc_text cloc = Inr v"
    and "count sample ''SOURCE'' = 1"
    and "count (replace sample ''SOURCE'' source) ''MINIFIED_SIZE'' = 1"
    and "count (replace (replace sample ''SOURCE'' source) ''MINIFIED_SIZE'' (size_text m))
           ''GZIP_SIZE'' = 1"
    and "count (replace (replace (replace sample ''SOURCE'' source) ''MINIFIED_SIZE'' (size_text m))
           ''GZIP_SIZE'' (size_text g)) ''CLOC'' = 1"
  shows "run w = Inr (replace (replace (replace (replace sample ''SOURCE'' source)
            ''MINIFIED_SIZE'' (size_text m)) ''GZIP_SIZE'' (size_text g)) ''CLOC'' v @ [newline]) \<and>
         int (length (replace (replace (replace (replace sample ''SOURCE'' source)
            ''MINIFIED_SIZE'' (size_text m)) ''GZIP_SIZE'' (size_text g)) ''CLOC'' v)) =
           int (length sample) -
           int (length ''SOURCE'' + length ''MINIFIED_SIZE'' + length ''GZIP_SIZE'' + length ''CLOC'') +
           int (length source + length (size_text m) + length (size_text g) + length v)"
proof -
  define s1 where "s1 = replace sample ''SOURCE'' source"
  define s2 where "s2 = replace s1 ''MINIFIED_SIZE'' (size_text m)"
  define s3 where "s3 = replace s2 ''GZIP_SIZE'' (size_text g)"
  define t where "t = replace s3 ''CLOC'' v"
  have 1: "length s1 + 6 = length sample + length source"
    using replace_length [of "''SOURCE''" sample source] assms(8) by (simp add: s1_def)
  have 2: "length s2 + 13 = length s1 + length (size_text m)"
    using replace_length [of "''MINIFIED_SIZE''" s1 "size_text m"] assms(9)
    by (simp add: s1_def s2_def)
  have 3: "length s3 + 9 = length s2 + length (size_text g)"
    using replace_length [of "''GZIP_SIZE''" s2 "size_text g"] assms(10)
    by (simp add: s1_def s2_def s3_def)
  have 4: "length t + 4 = length s3 + length v"
    using replace_length [of "''CLOC''" s3 v] assms(11)
    by (simp add: s1_def s2_def s3_def t_def)
  have len: "int (length t) = int (length sample) -
      int (length ''SOURCE'' + length ''MINIFIED_SIZE'' + length ''GZIP_SIZE'' + length ''CLOC'') +
      int (length source + length (size_text m) + length (size_text g) + length v)"
    using 1 2 3 4 by simp
  have "run w = Inr (t @ [newline])"
    using assms(1-7) by (simp add: run_def page_def Let_def s1_def s2_def s3_def t_def)
  with len show ?thesis by (simp only: s1_def s2_def s3_def t_def simp_thms)
qed

theorem output_length_witness:
  "run e2e_world = Inr (replace (replace (replace (replace e2e_template ''SOURCE'' ''const x = 1;'')
      ''MINIFIED_SIZE'' (size_text 2048)) ''GZIP_SIZE'' (size_text 1024)) ''CLOC'' ''2.0'' @ [newline]) \<and>
   int (length (replace (replace (replace (replace e2e_template ''SOURCE'' ''const x = 1;'')
      ''MINIFIED_SIZE'' (size_text 2048)) ''GZIP_SIZE'' (size_text 1024)) ''CLOC'' ''2.0'')) =
     int (length e2e_template) -
     int (length ''SOURCE'' + length ''MINIFIED_SIZE'' + length ''GZIP_SIZE'' + length ''CLOC'') +
     int (length ''const x = 1;'' + length (size_text 2048) + length (size_text 1024) + length ''2.0'')"
proof (rule output_length [where line = "''1,JavaScript,12,34,2048''" and cloc = "''2048''"])
  show "read_file e2e_world ''Sample.html.in'' = Some e2e_template"
    by (simp add: e2e_world_def surroundings_def)
  show "read_file e2e_world ''Editor.jsx.bin'' = Some ''const x = 1;''"
    by (simp add: e2e_world_def surroundings_def)
  show "index (split (getoutput e2e_world cloc_command) newline) 2 = Inr ''1,JavaScript,12,34,2048''"
    by (simp add: e2e_world_def surroundings_def cloc_csv_2048)
  show "index (split ''1,JavaScript,12,34,2048'' comma) 4 = Inr ''2048''"
    by (rule cloc_csv_2048)
  show "getsize e2e_world ''Editor.js'' = Some 2048"
    by (simp add: e2e_world_def surroundings_def)
  show "getsize e2e_world ''Editor.js.gz'' = Some 1024"
    by (simp add: e2e_world_def surroundings_def)
  show "cloc_text ''2048'' = Inr ''2.0''"
    by (rule cloc_text_2048)
  show "count e2e_template ''SOURCE'' = 1"
    by (simp add: e2e_template_def)
  show "count (replace e2e_template ''SOURCE'' ''const x = 1;'') ''MINIFIED_SIZE'' = 1"
    by (simp add: e2e_template_def)
  show "count (replace (replace e2e_template ''SOURCE'' ''const x = 1;'') ''MINIFIED_SIZE''
      (size_text 2048)) ''GZIP_SIZE'' = 1"
    by (simp add: e2e_template_def size_text_2048)
  show "count (replace (replace (replace e2e_template ''SOURCE'' ''const x = 1;'') ''MINIFIED_SIZE''
      (size_text 2048)) ''GZIP_SIZE'' (size_text 1024)) ''CLOC'' = 1"
    by (simp add: e2e_template_def size_text_2048 size_text_1024)
qed

text \<open>With each placeholder once in the template and CLOC once more in the source listing,
  the last replacement is made twice and the output is one character shorter than the claim
  says.\<close>

theorem output_length_counterexample:
  "run length_world = Inr (''1.0 1 1 1.0'' @ [newline]) \<and>
   int (length ''1.0 1 1 1.0'') \<noteq>
     int (length ''SOURCE MINIFIED_SIZE GZIP_SIZE CLOC'') -
     int (length ''SOURCE'' + length ''MINIFIED_SIZE'' + length ''GZIP_SIZE'' + length ''CLOC'') +
     int (length ''CLOC'' + length (size_text 1024) + length (size_text 1024) + length ''1.0'')"
  by (simp add: run_length_world size_text_1024)

subsection \<open>Permissive substitution\<close>

text \<open>
  Claim C9, as amended. The script succeeds whatever placeholders the template holds: with
  readable files and well-formed tool output the run ends normally with the four replacements
  applied. A replacement whose placeholder does not occur in the text it is applied to (the
  template for SOURCE, the result of the earlier replacements for the others) leaves that text
  unchanged. A placeholder that occurs several times is replaced at every occurrence the scan
  from the left finds: in a text made of pieces joined by the placeholder, where no other
  occurrence begins inside a piece, every one of them is replaced.
\<close>

theorem permissive_substitution:
  "(read_file w ''Sample.html.in'' = Some sample \<and> read_file w ''Editor.jsx.bin'' = Some source \<and>
    index (split (getoutput w cloc_command) newline) 2 = Inr line \<and>
    index (split line comma) 4 = Inr cloc \<and>
    getsize w ''Editor.js'' = Some m \<and> getsize w ''Editor.js.gz'' = Some g \<and>
    cloc_text cloc = Inr v \<longrightarrow>
    run w = Inr (replace (replace (replace (replace sample ''SOURCE'' source)
              ''MINIFIED_SIZE'' (size_text m)) ''GZIP_SIZE'' (size_text g)) ''CLOC'' v @ [newline])) \<and>
   (old \<noteq> [] \<and> \<not> sublist old s \<longrightarrow> replace s old new = s) \<and>
   (old \<noteq> [] \<and> (\<forall>p \<in> set ps. \<not> sublist old (p @ butlast old)) \<and> \<not> sublist old q \<longrightarrow>
    replace (concat (map (\<lambda>p. p @ old) ps) @ q) old new = concat (map (\<lambda>p. p @ new) ps) @ q)"
proof (intro conjI impI)
  assume "read_file w ''Sample.html.in'' = Some sample \<and> read_file w ''Editor.jsx.bin'' = Some source \<and>
    index (split (getoutput w cloc_command) newline) 2 = Inr line \<and>
    index (split line comma) 4 = Inr cloc \<and>
    getsize w ''Editor.js'' = Some m \<and> getsize w ''Editor.js.gz'' = Some g \<and>
    cloc_text cloc = Inr v"
  then show "run w = Inr (replace (replace (replace (replace sample ''SOURCE'' source)
              ''MINIFIED_SIZE'' (size_text m)) ''GZIP_SIZE'' (size_text g)) ''CLOC'' v @ [newline])"
    by (simp add: run_def page_def Let_def)
next
  assume "old \<noteq> [] \<and> \<not> sublist old s"
  then show "replace s old new = s" by (simp add: replace_noop)
next
  assume "old \<noteq> [] \<and> (\<forall>p \<in> set ps. \<not> sublist old (p @ butlast old)) \<and> \<not> sublist old q"
  then show "replace (concat (map (\<lambda>p. p @ old) ps) @ q) old new = concat (map (\<lambda>p. p @ new) ps) @ q"
    using replace_every [of old ps q new] by blast
qed

text \<open>A placeholder absent from the template can still be replaced: here CLOC is not in
  the template, the source listing brings it in, and the last replacement changes the text.\<close>

theorem permissive_substitution_counterexample:
  "\<not> sublist ''CLOC'' ''<pre>SOURCE</pre>'' \<and>
   run absent_token_world = Inr (''<pre>2.0</pre>'' @ [newline]) \<and>
   replace (replace (replace ''<pre>SOURCE</pre>'' ''SOURCE'' ''CLOC'') ''MINIFIED_SIZE''
     (size_text 2048)) ''GZIP_SIZE'' (size_text 1024) = ''<pre>CLOC</pre>'' \<and>
   replace ''<pre>CLOC</pre>'' ''CLOC'' ''2.0'' \<noteq> ''<pre>CLOC</pre>''"
proof -
  have "CHR ''L'' \<notin> set ''<pre>SOURCE</pre>''" by simp
  then have "\<not> sublist ''CLOC'' ''<pre>SOURCE</pre>''"
    using sublist_set [of "''CLOC''" "''<pre>SOURCE</pre>''"] by auto
  then show ?thesis
    by (simp add: run_absent_token_world size_text_2048 size_text_1024)
qed

end
